theory Spec2Isabelle
  imports Main "HOL-Library.Word"
begin

unbundle bit_operations_syntax

section \<open>The simulated NOR flash of FlashTest.cpp\<close>

text \<open>
  \<^verbatim>\<open>FlashTest\<close> (libraries/AP_FlashStorage/examples/FlashTest/FlashTest.cpp) drives the
  storage engine \<^verbatim>\<open>AP_FlashStorage\<close> against two heap buffers that play the role of two
  flash sectors. The three flash primitives it hands to the engine, and its own
  \<^verbatim>\<open>write\<close>, are embedded here function by function.

  Machine integers keep their C++ widths: \<^verbatim>\<open>uint8_t\<close>, \<^verbatim>\<open>uint16_t\<close> and
  \<^verbatim>\<open>uint32_t\<close> are words, whose \<open>+\<close> wraps around as the unsigned arithmetic
  of the source does.
\<close>

type_synonym u8 = "8 word"
type_synonym u16 = "16 word"
type_synonym u32 = "32 word"

text \<open>\<^verbatim>\<open>static const uint32_t flash_sector_size = 32U * 1024U;\<close>\<close>

definition flash_sector_size :: u32 where
  "flash_sector_size = 32 * 1024"

text \<open>
  \<^verbatim>\<open>uint8_t *flash[2]\<close>: exactly two buffers. A buffer is the list of its bytes, and the
  length of the list is the size of the allocation (\<^verbatim>\<open>loop\<close> allocates
  \<^verbatim>\<open>flash_sector_size\<close> bytes for each).
\<close>

type_synonym flash = "u8 list \<times> u8 list"

definition sector_get :: "flash \<Rightarrow> u8 \<Rightarrow> u8 list" where
  "sector_get fl sector = (if sector = 0 then fst fl else snd fl)"

definition sector_set :: "flash \<Rightarrow> u8 \<Rightarrow> u8 list \<Rightarrow> flash" where
  "sector_set fl sector b = (if sector = 0 then (b, snd fl) else (fst fl, b))"

text \<open>
  \<^verbatim>\<open>AP_HAL::panic\<close> prints its message and never returns. Each call site is one
  constructor, carrying the arguments of the format string. An access outside a buffer is
  undefined behaviour in C++; the model makes it a fault of its own, \<open>OutOfBounds\<close>,
  which is not a panic.
\<close>

datatype panic =
    Write_sector u8
  | Write_range u8 u32 u16
  | Invalid_write u8 u32 u16
  | Invalid_write16 u8 u32 u8 u8
  | Read_sector u8
  | Read_range u8 u32 u16
  | Erase_sector u8

datatype fault = Panic panic | OutOfBounds

subsection \<open>Little-endian 16-bit access\<close>

text \<open>
  Modelled from the spec: \<^verbatim>\<open>le16toh_ptr\<close> and \<^verbatim>\<open>put_le16_ptr\<close> are declared in
  AP_HAL/utility/sparse-endian.h, a header whose text is not available here. The
  specification fixes the write granularity at 16-bit units; the two helpers are taken by
  their names: the 16-bit word stored little-endian in the two bytes at a pointer
  (\<open>p[0] | p[1] << 8\<close>), and the store of such a word.
  \<open>word16_at\<close> is the value, \<open>le16toh_ptr\<close> adds the check that both bytes lie inside
  the buffer.
\<close>

definition word16_at :: "u8 list \<Rightarrow> nat \<Rightarrow> u16" where
  "word16_at p k = word_cat (p ! (k + 1)) (p ! k)"

definition le16toh_ptr :: "u8 list \<Rightarrow> nat \<Rightarrow> u16 option" where
  "le16toh_ptr p k = (if k + 1 < length p then Some (word16_at p k) else None)"

definition put_le16_ptr :: "u8 list \<Rightarrow> nat \<Rightarrow> u16 \<Rightarrow> u8 list" where
  "put_le16_ptr p k v = p[k := ucast v, k + 1 := ucast (drop_bit 8 v)]"

subsection \<open>flash\_write\<close>

text \<open>
  The loop of \<^verbatim>\<open>flash_write\<close>, from the state in which the loop variable is \<open>i\<close> and
  the sector's buffer is \<open>b\<close>:
  \<^verbatim>\<open>
    for (uint16_t i=0; i<len16; i++) {
        const uint16_t v = le16toh_ptr(&data[i*2]);
        uint16_t v2 = le16toh_ptr(&b[i*2]);
        if (v & !v2) { AP_HAL::panic(...); }
    #ifndef AP_FLASHSTORAGE_MULTI_WRITE
        if (v != v2 && v != 0xFFFF && v2 != 0xFFFF) { AP_HAL::panic(...); }
    #endif
        v2 &= v;
        put_le16_ptr(&b[i*2], v2);
    }
  \<close>
  In the source \<open>b\<close> is the pointer \<^verbatim>\<open>&flash[sector][offset]\<close>; here \<open>b\<close> is the whole
  buffer of the sector and the word \<open>i\<close> is read and stored at \<open>offset + i * 2\<close>.
  \<open>!v2\<close> is the logical negation: 1 when \<open>v2\<close> is 0 and 0 otherwise.
  Both panics print the same message, with \<open>sector\<close>, \<open>offset + i\<close> and the bytes
  \<open>b[i]\<close> and \<open>data[i]\<close>.
  The macro \<^verbatim>\<open>AP_FLASHSTORAGE_MULTI_WRITE\<close> is not defined in FlashTest.cpp; whether a build
  defines it is the parameter \<open>multi_write\<close>.
  The result is the fault that ended the loop, if any, and the buffer as the loop left it:
  a panic does not undo the words already stored.
\<close>

function write16_loop ::
  "bool \<Rightarrow> u8 \<Rightarrow> u32 \<Rightarrow> u8 list \<Rightarrow> u8 list \<Rightarrow> u16 \<Rightarrow> u16 \<Rightarrow> fault option \<times> u8 list" where
  "write16_loop multi_write sector offset data b i len16 =
     (if i < len16 then
        (case le16toh_ptr data (unat i * 2) of
           None \<Rightarrow> (Some OutOfBounds, b)
         | Some v \<Rightarrow>
        (case le16toh_ptr b (unat offset + unat i * 2) of
           None \<Rightarrow> (Some OutOfBounds, b)
         | Some v2 \<Rightarrow>
             if v AND (if v2 = 0 then 1 else 0) \<noteq> 0 then
               (Some (Panic (Invalid_write16 sector (offset + ucast i)
                  (b ! (unat offset + unat i)) (data ! unat i))), b)
             else if \<not> multi_write \<and> v \<noteq> v2 \<and> v \<noteq> 0xFFFF \<and> v2 \<noteq> 0xFFFF then
               (Some (Panic (Invalid_write16 sector (offset + ucast i)
                  (b ! (unat offset + unat i)) (data ! unat i))), b)
             else
               write16_loop multi_write sector offset data
                 (put_le16_ptr b (unat offset + unat i * 2) (v2 AND v)) (i + 1) len16))
      else (None, b))"
  by pat_completeness auto
termination
proof (relation "measure (\<lambda>(mw, sector, offset, data, b, i, len16). unat len16 - unat i)")
  show "wf (measure (\<lambda>(mw, sector, offset, data, b, i, len16). unat len16 - unat i))"
    by simp
next
  fix multi_write :: bool and sector :: u8 and offset :: u32 and data b :: "u8 list"
    and i len16 :: u16 and v v2 :: u16
  assume "i < len16"
  then have "unat len16 - unat (i + 1) < unat len16 - unat i"
    by unat_arith
  then show "((multi_write, sector, offset, data,
        put_le16_ptr b (unat offset + unat i * 2) (v2 AND v), i + 1, len16),
       (multi_write, sector, offset, data, b, i, len16))
      \<in> measure (\<lambda>(mw, sector, offset, data, b, i, len16). unat len16 - unat i)"
    by simp
qed

text \<open>
  \<^verbatim>\<open>bool FlashTest::flash_write(uint8_t sector, uint32_t offset, const uint8_t *data,
  uint16_t length)\<close>. The sum \<open>offset + length\<close> is computed in \<^verbatim>\<open>uint32_t\<close>
  (\<open>length\<close> is converted to it). The pointer \<open>b\<close> is formed before the alignment test
  and first used in the loop; only the uses are accesses.
  The result is what the call did (it returned a value, or it ended in a fault) and the
  flash as the call left it.
\<close>

definition flash_write ::
  "bool \<Rightarrow> flash \<Rightarrow> u8 \<Rightarrow> u32 \<Rightarrow> u8 list \<Rightarrow> u16 \<Rightarrow> (fault + bool) \<times> flash" where
  "flash_write multi_write fl sector offset data len =
     (if sector > 1 then (Inl (Panic (Write_sector sector)), fl)
      else if offset + ucast len > flash_sector_size then
        (Inl (Panic (Write_range sector offset len)), fl)
      else if offset AND 1 \<noteq> 0 \<or> len AND 1 \<noteq> 0 then
        (Inl (Panic (Invalid_write sector offset len)), fl)
      else
        (case write16_loop multi_write sector offset data (sector_get fl sector) 0 (len div 2) of
           (Some f, b) \<Rightarrow> (Inl f, sector_set fl sector b)
         | (None, b) \<Rightarrow> (Inr True, sector_set fl sector b)))"

text \<open>
  The two tests of the loop body on a data word \<open>v\<close> and the flash word \<open>v2\<close> under it
  (lines 68 and 76 of FlashTest.cpp); the loop panics when either holds.
\<close>

definition write16_refused :: "bool \<Rightarrow> u16 \<Rightarrow> u16 \<Rightarrow> bool" where
  "write16_refused multi_write v v2 \<longleftrightarrow>
     v AND (if v2 = 0 then 1 else 0) \<noteq> 0 \<or>
     (\<not> multi_write \<and> v \<noteq> v2 \<and> v \<noteq> 0xFFFF \<and> v2 \<noteq> 0xFFFF)"

subsection \<open>flash\_read and flash\_erase\<close>

text \<open>
  \<^verbatim>\<open>memcpy(dst + k, src + j, n)\<close> and \<^verbatim>\<open>memset(dst, c, n)\<close> on buffers; \<open>None\<close>
  when the range leaves either buffer.
\<close>

definition memcpy :: "u8 list \<Rightarrow> nat \<Rightarrow> u8 list \<Rightarrow> nat \<Rightarrow> nat \<Rightarrow> u8 list option" where
  "memcpy dst k src j n =
     (if k + n \<le> length dst \<and> j + n \<le> length src
      then Some (take k dst @ take n (drop j src) @ drop (k + n) dst)
      else None)"

definition memset :: "u8 list \<Rightarrow> u8 \<Rightarrow> nat \<Rightarrow> u8 list option" where
  "memset dst c n =
     (if n \<le> length dst then Some (replicate n c @ drop n dst) else None)"

text \<open>
  \<^verbatim>\<open>bool FlashTest::flash_read(uint8_t sector, uint32_t offset, uint8_t *data,
  uint16_t length)\<close>; \<open>data\<close> is the caller's buffer, returned as the call left it.
\<close>

definition flash_read ::
  "flash \<Rightarrow> u8 \<Rightarrow> u32 \<Rightarrow> u8 list \<Rightarrow> u16 \<Rightarrow> (fault + bool) \<times> u8 list" where
  "flash_read fl sector offset data len =
     (if sector > 1 then (Inl (Panic (Read_sector sector)), data)
      else if offset + ucast len > flash_sector_size then
        (Inl (Panic (Read_range sector offset len)), data)
      else
        (case memcpy data 0 (sector_get fl sector) (unat offset) (unat len) of
           None \<Rightarrow> (Inl OutOfBounds, data)
         | Some data' \<Rightarrow> (Inr True, data')))"

text \<open>\<^verbatim>\<open>bool FlashTest::flash_erase(uint8_t sector)\<close>\<close>

definition flash_erase :: "flash \<Rightarrow> u8 \<Rightarrow> (fault + bool) \<times> flash" where
  "flash_erase fl sector =
     (if sector > 1 then (Inl (Panic (Erase_sector sector)), fl)
      else
        (case memset (sector_get fl sector) 0xFF (unat flash_sector_size) of
           None \<Rightarrow> (Inl OutOfBounds, fl)
         | Some b \<Rightarrow> (Inr True, sector_set fl sector b)))"

subsection \<open>FlashTest::write\<close>

text \<open>
  The state of a \<^verbatim>\<open>FlashTest\<close> object: the image handed to the engine
  (\<^verbatim>\<open>mem_buffer\<close>), the harness's own copy of every write (\<^verbatim>\<open>mem_mirror\<close>), the two
  sectors, the engine \<^verbatim>\<open>storage\<close>, the erase gate \<^verbatim>\<open>erase_ok\<close>, and what has been
  printed. \<^verbatim>\<open>AP_FlashStorage::storage_size\<close> comes from a header that is not at hand; it is
  the length of the two image buffers.
\<close>

datatype printed = Failed_to_write u16 u16

record 'st FlashTest =
  mem_buffer :: "u8 list"
  mem_mirror :: "u8 list"
  flash :: flash
  storage :: 'st
  erase_ok :: bool
  console :: "printed list"

text \<open>
  \<^verbatim>\<open>AP_FlashStorage::write(offset, length)\<close> belongs to the engine, whose code is not at
  hand. It is a parameter of the model: any function of what the engine can reach (its own
  state, \<^verbatim>\<open>mem_buffer\<close> through the pointer given to its constructor, the flash and the
  erase gate through the four callbacks) that ends in a fault or returns a \<^verbatim>\<open>bool\<close>.
  \<^verbatim>\<open>mem_mirror\<close>, \<^verbatim>\<open>erase_ok\<close> and the console are not reachable from the engine.
\<close>

type_synonym 'st storage_write =
  "'st \<Rightarrow> u8 list \<Rightarrow> flash \<Rightarrow> bool \<Rightarrow> u16 \<Rightarrow> u16 \<Rightarrow> (fault + bool) \<times> 'st \<times> u8 list \<times> flash"

text \<open>
  \<^verbatim>\<open>
  void FlashTest::write(uint16_t offset, const uint8_t *data, uint16_t length)
  {
      memcpy(&mem_mirror[offset], data, length);
      memcpy(&mem_buffer[offset], data, length);
      if (!storage.write(offset, length)) {
          if (erase_ok) {
              printf("Failed to write at %u for %u\n", offset, length);
          }
      }
  }
  \<close>
\<close>

text \<open>The name \<open>write\<close> is reserved in Isabelle; the function is \<open>FlashTest_write\<close> here.\<close>

definition FlashTest_write ::
  "'st storage_write \<Rightarrow> 'st FlashTest \<Rightarrow> u16 \<Rightarrow> u8 list \<Rightarrow> u16 \<Rightarrow> fault + 'st FlashTest" where
  "FlashTest_write storage_write t offset data len =
     (case memcpy (mem_mirror t) (unat offset) data 0 (unat len) of
        None \<Rightarrow> Inl OutOfBounds
      | Some mirror \<Rightarrow>
     (case memcpy (mem_buffer t) (unat offset) data 0 (unat len) of
        None \<Rightarrow> Inl OutOfBounds
      | Some buffer \<Rightarrow>
     (case storage_write (storage t) buffer (flash t) (erase_ok t) offset len of
        (Inl f, st, buffer', fl) \<Rightarrow> Inl f
      | (Inr ok, st, buffer', fl) \<Rightarrow>
          Inr (t\<lparr>mem_buffer := buffer', mem_mirror := mirror, flash := fl, storage := st,
                 console := console t @
                   (if \<not> ok \<and> erase_ok t then [Failed_to_write offset len] else [])\<rparr>))))"

text \<open>
  Modelled from the spec: what \<^verbatim>\<open>AP_FlashStorage::write\<close> may do to the image. The engine's
  \<open>append(offset, length)\<close> "takes the current logical image bytes at
  \<open>[offset, offset+length)\<close> (already updated in memory by the caller) and durably records
  that range" (section 4.2), and on failure "the in-memory image is unchanged from the
  caller's perspective" (section 6): the engine reads the image and leaves it as it is. An
  engine keeps the image when the image it hands back is the image it was given.
\<close>

definition keeps_image :: "'st storage_write \<Rightarrow> bool" where
  "keeps_image storage_write \<longleftrightarrow>
     (\<forall>st buffer fl gate offset len.
        fst (snd (snd (storage_write st buffer fl gate offset len))) = buffer)"

section \<open>Words, bytes and the two sectors\<close>

declare write16_loop.simps [simp del]

lemma unat_u16_lt: "unat (w :: u16) < 65536"
  using unsigned_less [of w] by simp

lemma unat_ucast_u16_u32: "unat (ucast (w :: u16) :: u32) = unat w"
  using unat_u16_lt [of w] by (simp add: unsigned_ucast_eq take_bit_nat_eq_self_iff)

lemma unat_succ_u16: "i < n \<Longrightarrow> unat (i + 1) = Suc (unat i)" for i n :: u16
  by unat_arith

lemma word16_at_put_same:
  "k + 1 < length p \<Longrightarrow> word16_at (put_le16_ptr p k v) k = v"
  by (simp add: word16_at_def put_le16_ptr_def) (rule bit_word_eqI, auto simp: bit_simps)

lemma nth_put_other:
  "m \<noteq> k \<Longrightarrow> m \<noteq> k + 1 \<Longrightarrow> put_le16_ptr p k v ! m = p ! m"
  by (simp add: put_le16_ptr_def)

lemma word16_at_put_other:
  "m + 1 < k \<or> k + 1 < m \<Longrightarrow> word16_at (put_le16_ptr p k v) m = word16_at p m"
  by (auto simp: word16_at_def put_le16_ptr_def)

lemma length_put [simp]: "length (put_le16_ptr p k v) = length p"
  by (simp add: put_le16_ptr_def)

lemma sector_get_set [simp]: "sector_get (sector_set fl s b) s = b"
  by (simp add: sector_get_def sector_set_def)

lemma le_1_u8: "\<not> 1 < s \<Longrightarrow> s = 0 \<or> s = 1" for s :: u8
  by unat_arith

lemma sector_get_set_other:
  "\<not> 1 < s \<Longrightarrow> \<not> 1 < s' \<Longrightarrow> s' \<noteq> s \<Longrightarrow> sector_get (sector_set fl s b) s' = sector_get fl s'"
  using le_1_u8 [of s] le_1_u8 [of s'] by (auto simp: sector_get_def sector_set_def)

lemma ffff_and: "(0xFFFF :: u16) AND v = v"
proof -
  have "(0xFFFF :: u16) = - 1" by simp
  then show ?thesis by (simp only: and.left_neutral)
qed

lemma word16_at_ff: "p ! k = 0xFF \<Longrightarrow> p ! (k + 1) = 0xFF \<Longrightarrow> word16_at p k = 0xFFFF"
  by (simp add: word16_at_def word_cat_eq)

lemma word16_at_bytes:
  "word16_at p k = word16_at q m \<Longrightarrow> p ! k = q ! m \<and> p ! (k + 1) = q ! (m + 1)"
proof -
  assume eq: "word16_at p k = word16_at q m"
  have lo: "ucast (word_cat h l :: u16) = l" for h l :: u8
    by (rule bit_word_eqI) (auto simp: bit_simps)
  have hi: "ucast (drop_bit 8 (word_cat h l :: u16)) = h" for h l :: u8
    by (rule bit_word_eqI) (auto simp: bit_simps)
  from eq have "(ucast (word16_at p k) :: u8) = ucast (word16_at q m)"
    and "(ucast (drop_bit 8 (word16_at p k)) :: u8) = ucast (drop_bit 8 (word16_at q m))"
    by simp_all
  then show ?thesis
    by (simp add: word16_at_def lo hi)
qed

section \<open>The write loop\<close>

text \<open>A run of the loop that ends without a fault has stored, in every word of its range, the
  conjunction of the old word and the data word, and has touched nothing else.\<close>

lemma write16_loop_done:
  "write16_loop mw s off data b i n = (None, b') \<Longrightarrow>
     length b' = length b \<and>
     (\<forall>j. unat i \<le> j \<and> j < unat n \<longrightarrow>
        j * 2 + 1 < length data \<and> unat off + j * 2 + 1 < length b \<and>
        word16_at b' (unat off + j * 2) =
          word16_at b (unat off + j * 2) AND word16_at data (j * 2)) \<and>
     (\<forall>k. k < unat off + unat i * 2 \<or> unat off + unat n * 2 \<le> k \<longrightarrow> b' ! k = b ! k)"
proof (induction mw s off data b i n rule: write16_loop.induct)
  case (1 mw s off data b i n)
  show ?case
  proof (cases "i < n")
    case False
    then have "unat n \<le> unat i"
      by (simp add: word_less_nat_alt)
    moreover from False "1.prems" have "b' = b"
      by (simp add: write16_loop.simps [of mw s off data b i n])
    ultimately show ?thesis
      by auto
  next
    case True
    then have lt: "unat i < unat n"
      by (simp add: word_less_nat_alt)
    from True have suc: "unat (i + 1) = Suc (unat i)"
      by (rule unat_succ_u16)
    from True "1.prems" obtain v v2 where
      v: "le16toh_ptr data (unat i * 2) = Some v" and
      v2: "le16toh_ptr b (unat off + unat i * 2) = Some v2" and
      c1: "\<not> v AND (if v2 = 0 then 1 else 0) \<noteq> 0" and
      c2: "\<not> (\<not> mw \<and> v \<noteq> v2 \<and> v \<noteq> 0xFFFF \<and> v2 \<noteq> 0xFFFF)" and
      rest: "write16_loop mw s off data
               (put_le16_ptr b (unat off + unat i * 2) (v2 AND v)) (i + 1) n = (None, b')"
      by (simp add: write16_loop.simps [of mw s off data b i n]
            split: option.splits if_splits)
    let ?b1 = "put_le16_ptr b (unat off + unat i * 2) (v2 AND v)"
    from v have inD: "unat i * 2 + 1 < length data" and vD: "v = word16_at data (unat i * 2)"
      by (auto simp: le16toh_ptr_def split: if_splits)
    from v2 have inB: "unat off + unat i * 2 + 1 < length b"
      and vB: "v2 = word16_at b (unat off + unat i * 2)"
      by (auto simp: le16toh_ptr_def split: if_splits)
    note IH = "1.IH" [OF True v v2 c1 c2 rest]
    from IH have len: "length b' = length b"
      by simp
    have here: "word16_at b' (unat off + unat i * 2) = v2 AND v"
    proof -
      from IH suc have "b' ! (unat off + unat i * 2) = ?b1 ! (unat off + unat i * 2)"
        and "b' ! (unat off + unat i * 2 + 1) = ?b1 ! (unat off + unat i * 2 + 1)"
        by simp_all
      then have "word16_at b' (unat off + unat i * 2) = word16_at ?b1 (unat off + unat i * 2)"
        by (simp add: word16_at_def)
      with inB show ?thesis
        by (simp add: word16_at_put_same)
    qed
    have words: "j * 2 + 1 < length data \<and> unat off + j * 2 + 1 < length b \<and>
        word16_at b' (unat off + j * 2) =
          word16_at b (unat off + j * 2) AND word16_at data (j * 2)"
      if j: "unat i \<le> j" "j < unat n" for j
    proof (cases "j = unat i")
      case True
      with here inD inB vD vB show ?thesis by simp
    next
      case False
      with j suc have j1: "unat (i + 1) \<le> j" by simp
      with IH j have "j * 2 + 1 < length data \<and> unat off + j * 2 + 1 < length ?b1 \<and>
        word16_at b' (unat off + j * 2) =
          word16_at ?b1 (unat off + j * 2) AND word16_at data (j * 2)"
        by blast
      moreover from j1 suc have "word16_at ?b1 (unat off + j * 2) = word16_at b (unat off + j * 2)"
        by (intro word16_at_put_other) simp
      ultimately show ?thesis by simp
    qed
    have bytes: "b' ! k = b ! k"
      if k: "k < unat off + unat i * 2 \<or> unat off + unat n * 2 \<le> k" for k
    proof -
      from k suc have "k < unat off + unat (i + 1) * 2 \<or> unat off + unat n * 2 \<le> k"
        by auto
      with IH have "b' ! k = ?b1 ! k" by blast
      moreover from k lt have "?b1 ! k = b ! k"
        by (intro nth_put_other) auto
      ultimately show ?thesis by simp
    qed
    from len words bytes show ?thesis by blast
  qed
qed

text \<open>A panic leaves the words before the failing index stored.\<close>

lemma write16_loop_panic:
  "write16_loop mw s off data b i n = (Some (Panic p), b') \<Longrightarrow>
     \<exists>k x y. i \<le> k \<and> k < n \<and> p = Invalid_write16 s (off + ucast k) x y \<and>
       write16_refused mw (word16_at data (unat k * 2)) (word16_at b (unat off + unat k * 2)) \<and>
       length b' = length b \<and>
       (\<forall>j. unat i \<le> j \<and> j < unat k \<longrightarrow>
          word16_at b' (unat off + j * 2) =
            word16_at b (unat off + j * 2) AND word16_at data (j * 2)) \<and>
       (\<forall>m. m < unat off + unat i * 2 \<or> unat off + unat k * 2 \<le> m \<longrightarrow> b' ! m = b ! m)"
proof (induction mw s off data b i n rule: write16_loop.induct)
  case (1 mw s off data b i n)
  from "1.prems" have True: "i < n"
    by (simp add: write16_loop.simps [of mw s off data b i n] split: if_splits)
  then have lt: "unat i < unat n"
    by (simp add: word_less_nat_alt)
  from True have suc: "unat (i + 1) = Suc (unat i)"
    by (rule unat_succ_u16)
  from True "1.prems" obtain v v2 where
    v: "le16toh_ptr data (unat i * 2) = Some v" and
    v2: "le16toh_ptr b (unat off + unat i * 2) = Some v2"
    by (simp add: write16_loop.simps [of mw s off data b i n] split: option.splits)
  let ?b1 = "put_le16_ptr b (unat off + unat i * 2) (v2 AND v)"
  from v2 have inB: "unat off + unat i * 2 + 1 < length b"
    and vB: "v2 = word16_at b (unat off + unat i * 2)"
    by (auto simp: le16toh_ptr_def split: if_splits)
  from v have vD: "v = word16_at data (unat i * 2)"
    by (auto simp: le16toh_ptr_def split: if_splits)
  show ?case
  proof (cases "write16_refused mw v v2")
    case stop: True
    with True v v2 "1.prems" have
      "p = Invalid_write16 s (off + ucast i) (b ! (unat off + unat i)) (data ! unat i)"
      and "b' = b"
      by (auto simp: write16_loop.simps [of mw s off data b i n] write16_refused_def
          split: if_splits)
    with True stop vD vB show ?thesis
      by auto
  next
    case go: False
    then have c1: "\<not> v AND (if v2 = 0 then 1 else 0) \<noteq> 0"
      and c2: "\<not> (\<not> mw \<and> v \<noteq> v2 \<and> v \<noteq> 0xFFFF \<and> v2 \<noteq> 0xFFFF)"
      unfolding write16_refused_def by blast+
    from True v v2 c1 c2 "1.prems" have
      rest: "write16_loop mw s off data ?b1 (i + 1) n = (Some (Panic p), b')"
      by (auto simp: write16_loop.simps [of mw s off data b i n] split: if_splits)
    from "1.IH" [OF True v v2 c1 c2 rest] obtain k x y where
      k: "i + 1 \<le> k" "k < n" "p = Invalid_write16 s (off + ucast k) x y" and
      ref1: "write16_refused mw (word16_at data (unat k * 2))
          (word16_at ?b1 (unat off + unat k * 2))" and
      len: "length b' = length ?b1" and
      words1: "\<And>j. unat (i + 1) \<le> j \<Longrightarrow> j < unat k \<Longrightarrow>
          word16_at b' (unat off + j * 2) =
            word16_at ?b1 (unat off + j * 2) AND word16_at data (j * 2)" and
      bytes1: "\<And>m. m < unat off + unat (i + 1) * 2 \<or> unat off + unat k * 2 \<le> m \<Longrightarrow>
          b' ! m = ?b1 ! m"
      by blast
    from k(1) suc have ik: "unat i < unat k"
      by (simp add: word_le_nat_alt)
    then have ik': "i \<le> k"
      by (simp add: word_le_nat_alt)
    from ik have "word16_at ?b1 (unat off + unat k * 2) = word16_at b (unat off + unat k * 2)"
      by (intro word16_at_put_other) simp
    with ref1 have ref: "write16_refused mw (word16_at data (unat k * 2))
          (word16_at b (unat off + unat k * 2))"
      by simp
    have here: "word16_at b' (unat off + unat i * 2) = v2 AND v"
    proof -
      from bytes1 suc have "b' ! (unat off + unat i * 2) = ?b1 ! (unat off + unat i * 2)"
        and "b' ! (unat off + unat i * 2 + 1) = ?b1 ! (unat off + unat i * 2 + 1)"
        by simp_all
      then have "word16_at b' (unat off + unat i * 2) = word16_at ?b1 (unat off + unat i * 2)"
        by (simp add: word16_at_def)
      with inB show ?thesis
        by (simp add: word16_at_put_same)
    qed
    have words: "word16_at b' (unat off + j * 2) =
          word16_at b (unat off + j * 2) AND word16_at data (j * 2)"
      if j: "unat i \<le> j" "j < unat k" for j
    proof (cases "j = unat i")
      case True
      with here vD vB show ?thesis by simp
    next
      case False
      with j suc have j1: "unat (i + 1) \<le> j" by simp
      with words1 j have "word16_at b' (unat off + j * 2) =
          word16_at ?b1 (unat off + j * 2) AND word16_at data (j * 2)"
        by blast
      moreover from j1 suc have "word16_at ?b1 (unat off + j * 2) = word16_at b (unat off + j * 2)"
        by (intro word16_at_put_other) simp
      ultimately show ?thesis by simp
    qed
    have bytes: "b' ! m = b ! m"
      if m: "m < unat off + unat i * 2 \<or> unat off + unat k * 2 \<le> m" for m
    proof -
      from m suc have "m < unat off + unat (i + 1) * 2 \<or> unat off + unat k * 2 \<le> m"
        by auto
      with bytes1 have "b' ! m = ?b1 ! m" by blast
      moreover from m ik have "?b1 ! m = b ! m"
        by (intro nth_put_other) auto
      ultimately show ?thesis by simp
    qed
    from ik' k(2,3) ref len words bytes show ?thesis
      by (intro exI [of _ k] exI [of _ x] exI [of _ y]) simp
  qed
qed

text \<open>When every access of the loop is in range, the loop ends without a fault if no word of
  its range is refused, and in a panic otherwise.\<close>

lemma write16_loop_outcome:
  assumes inb: "\<forall>j. unat i \<le> j \<and> j < unat n \<longrightarrow>
      j * 2 + 1 < length data \<and> unat off + j * 2 + 1 < length b"
  shows "if \<forall>j. unat i \<le> j \<and> j < unat n \<longrightarrow>
        \<not> write16_refused mw (word16_at data (j * 2)) (word16_at b (unat off + j * 2))
      then \<exists>b'. write16_loop mw s off data b i n = (None, b')
      else \<exists>p b'. write16_loop mw s off data b i n = (Some (Panic p), b')"
  using inb
proof (induction mw s off data b i n rule: write16_loop.induct)
  case (1 mw s off data b i n)
  show ?case
  proof (cases "i < n")
    case False
    then have "unat n \<le> unat i"
      by (simp add: word_less_nat_alt)
    with False show ?thesis
      by (simp add: write16_loop.simps [of mw s off data b i n])
  next
    case True
    then have lt: "unat i < unat n"
      by (simp add: word_less_nat_alt)
    from True have suc: "unat (i + 1) = Suc (unat i)"
      by (rule unat_succ_u16)
    define v where "v = word16_at data (unat i * 2)"
    define v2 where "v2 = word16_at b (unat off + unat i * 2)"
    let ?b1 = "put_le16_ptr b (unat off + unat i * 2) (v2 AND v)"
    from "1.prems" lt have v: "le16toh_ptr data (unat i * 2) = Some v"
      and v2: "le16toh_ptr b (unat off + unat i * 2) = Some v2"
      by (simp_all add: le16toh_ptr_def v_def v2_def)
    show ?thesis
    proof (cases "write16_refused mw v v2")
      case stop: True
      with True v v2 have "\<exists>p b'. write16_loop mw s off data b i n = (Some (Panic p), b')"
        by (auto simp: write16_loop.simps [of mw s off data b i n] write16_refused_def)
      moreover from stop lt have "\<not> (\<forall>j. unat i \<le> j \<and> j < unat n \<longrightarrow>
        \<not> write16_refused mw (word16_at data (j * 2)) (word16_at b (unat off + j * 2)))"
        unfolding v_def v2_def by auto
      ultimately show ?thesis
        by (simp only: if_False)
    next
      case go: False
      then have c1: "\<not> v AND (if v2 = 0 then 1 else 0) \<noteq> 0"
        and c2: "\<not> (\<not> mw \<and> v \<noteq> v2 \<and> v \<noteq> 0xFFFF \<and> v2 \<noteq> 0xFFFF)"
        unfolding write16_refused_def by blast+
      from True v v2 c1 c2 have unfold: "write16_loop mw s off data b i n =
          write16_loop mw s off data ?b1 (i + 1) n"
        by (auto simp: write16_loop.simps [of mw s off data b i n])
      have same: "word16_at ?b1 (unat off + j * 2) = word16_at b (unat off + j * 2)"
        if "unat (i + 1) \<le> j" for j
        using that suc by (intro word16_at_put_other) simp
      have inb1: "\<forall>j. unat (i + 1) \<le> j \<and> j < unat n \<longrightarrow>
          j * 2 + 1 < length data \<and> unat off + j * 2 + 1 < length ?b1"
        using "1.prems" suc by simp
      note IH = "1.IH" [OF True v v2 c1 c2 inb1]
      have split: "(\<forall>j. unat (i + 1) \<le> j \<and> j < unat n \<longrightarrow>
          \<not> write16_refused mw (word16_at data (j * 2)) (word16_at ?b1 (unat off + j * 2)))
        \<longleftrightarrow> (\<forall>j. unat i \<le> j \<and> j < unat n \<longrightarrow>
          \<not> write16_refused mw (word16_at data (j * 2)) (word16_at b (unat off + j * 2)))"
        (is "?R \<longleftrightarrow> ?L")
      proof
        assume L: ?L
        show ?R
        proof (intro allI impI)
          fix j assume j: "unat (i + 1) \<le> j \<and> j < unat n"
          with suc have "unat i \<le> j \<and> j < unat n" by simp
          with L have "\<not> write16_refused mw (word16_at data (j * 2))
              (word16_at b (unat off + j * 2))"
            by blast
          moreover from j have "word16_at ?b1 (unat off + j * 2) = word16_at b (unat off + j * 2)"
            by (intro same) simp
          ultimately
          show "\<not> write16_refused mw (word16_at data (j * 2)) (word16_at ?b1 (unat off + j * 2))"
            by simp
        qed
      next
        assume R: ?R
        show ?L
        proof (intro allI impI)
          fix j assume j: "unat i \<le> j \<and> j < unat n"
          show "\<not> write16_refused mw (word16_at data (j * 2)) (word16_at b (unat off + j * 2))"
          proof (cases "j = unat i")
            case True
            with go show ?thesis
              unfolding v_def v2_def by simp
          next
            case False
            with j suc have j1: "unat (i + 1) \<le> j \<and> j < unat n" by simp
            with R have "\<not> write16_refused mw (word16_at data (j * 2))
                (word16_at ?b1 (unat off + j * 2))"
              by blast
            moreover from j1 have "word16_at ?b1 (unat off + j * 2) = word16_at b (unat off + j * 2)"
              by (intro same) simp
            ultimately show ?thesis by simp
          qed
        qed
      qed
      from IH show ?thesis
        unfolding unfold split .
    qed
  qed
qed

text \<open>A word that the tests refuse is never stored over, however the loop ends.\<close>

lemma write16_loop_keeps_refused:
  assumes "unat i \<le> j" and "j < unat n"
    and "write16_refused mw (word16_at data (j * 2)) (word16_at b (unat off + j * 2))"
  shows "word16_at (snd (write16_loop mw s off data b i n)) (unat off + j * 2) =
      word16_at b (unat off + j * 2)"
  using assms
proof (induction mw s off data b i n rule: write16_loop.induct)
  case (1 mw s off data b i n)
  from "1.prems" have lt: "unat i < unat n" by simp
  then have True: "i < n"
    by (simp add: word_less_nat_alt)
  from True have suc: "unat (i + 1) = Suc (unat i)"
    by (rule unat_succ_u16)
  show ?case
  proof (cases "le16toh_ptr data (unat i * 2)")
    case None
    with True show ?thesis
      by (simp add: write16_loop.simps [of mw s off data b i n])
  next
    case v: (Some v)
    show ?thesis
    proof (cases "le16toh_ptr b (unat off + unat i * 2)")
      case None
      with True v show ?thesis
        by (simp add: write16_loop.simps [of mw s off data b i n])
    next
      case v2: (Some v2)
      let ?b1 = "put_le16_ptr b (unat off + unat i * 2) (v2 AND v)"
      from v have vD: "v = word16_at data (unat i * 2)"
        by (auto simp: le16toh_ptr_def split: if_splits)
      from v2 have vB: "v2 = word16_at b (unat off + unat i * 2)"
        by (auto simp: le16toh_ptr_def split: if_splits)
      show ?thesis
      proof (cases "write16_refused mw v v2")
        case True
        with \<open>i < n\<close> v v2 have "snd (write16_loop mw s off data b i n) = b"
          by (auto simp: write16_loop.simps [of mw s off data b i n] write16_refused_def)
        then show ?thesis by simp
      next
        case go: False
        then have c1: "\<not> v AND (if v2 = 0 then 1 else 0) \<noteq> 0"
          and c2: "\<not> (\<not> mw \<and> v \<noteq> v2 \<and> v \<noteq> 0xFFFF \<and> v2 \<noteq> 0xFFFF)"
          unfolding write16_refused_def by blast+
        from True v v2 c1 c2 have unfold: "write16_loop mw s off data b i n =
            write16_loop mw s off data ?b1 (i + 1) n"
          by (auto simp: write16_loop.simps [of mw s off data b i n])
        from go "1.prems"(3) vD vB have "j \<noteq> unat i"
          by auto
        with "1.prems"(1) suc have j1: "unat (i + 1) \<le> j"
          by simp
        then have same: "word16_at ?b1 (unat off + j * 2) = word16_at b (unat off + j * 2)"
          using suc by (intro word16_at_put_other) simp
        with "1.prems"(3) have ref1: "write16_refused mw (word16_at data (j * 2))
            (word16_at ?b1 (unat off + j * 2))"
          by simp
        from "1.IH" [OF True v v2 c1 c2 j1 "1.prems"(2) ref1] same show ?thesis
          by (simp only: unfold)
      qed
    qed
  qed
qed

section \<open>flash\_write as a whole\<close>

lemma unat_flash_sector_size: "unat flash_sector_size = 32768"
  by (simp add: flash_sector_size_def)

lemma range_check_passes:
  fixes off :: u32 and len :: u16
  assumes "unat off + unat len \<le> unat flash_sector_size"
  shows "\<not> flash_sector_size < off + ucast len"
proof -
  have uc: "unat (ucast len :: u32) = unat len"
    by (rule unat_ucast_u16_u32)
  from assms have "unat off + unat (ucast len :: u32) < 2 ^ LENGTH(32)"
    unfolding uc by (simp add: unat_flash_sector_size)
  then have "unat (off + ucast len) = unat off + unat (ucast len :: u32)"
    by (rule unat_add_lem [THEN iffD1])
  with assms uc show ?thesis
    by (simp add: word_less_nat_alt)
qed

lemma unat_half_u16: "unat (len div 2) = unat len div 2" for len :: u16
  by (simp add: unat_div)

lemma even_u16: "len AND 1 = 0 \<Longrightarrow> unat len div 2 * 2 = unat len" for len :: u16
proof -
  assume "len AND 1 = 0"
  then have "unat (len mod 2) = 0"
    by (simp add: and_one_eq)
  then have "unat len mod 2 = 0"
    by (simp add: unat_mod_distrib)
  then show ?thesis
    by presburger
qed

lemma flash_write_loop:
  assumes "\<not> 1 < s" "\<not> flash_sector_size < off + ucast len" "off AND 1 = 0" "len AND 1 = 0"
  shows "flash_write mw fl s off data len =
    (case write16_loop mw s off data (sector_get fl s) 0 (len div 2) of
           (Some f, b) \<Rightarrow> (Inl f, sector_set fl s b)
         | (None, b) \<Rightarrow> (Inr True, sector_set fl s b))"
  using assms by (simp add: flash_write_def)

lemma flash_write_returns:
  assumes "flash_write mw fl s off data len = (Inr r, fl')"
  shows "r = True \<and> \<not> 1 < s \<and> \<not> flash_sector_size < off + ucast len \<and> off AND 1 = 0 \<and> len AND 1 = 0 \<and>
    (\<exists>b'. write16_loop mw s off data (sector_get fl s) 0 (len div 2) = (None, b') \<and>
       fl' = sector_set fl s b')"
  using assms by (auto simp: flash_write_def split: if_splits option.splits prod.splits)

lemma flash_write_in_range:
  fixes off :: u32 and len :: u16
  assumes range: "unat off + unat len \<le> unat flash_sector_size"
    and size: "length (sector_get fl s) = unat flash_sector_size"
    and data: "unat len \<le> length data"
  shows "\<forall>j. unat (0 :: u16) \<le> j \<and> j < unat (len div 2) \<longrightarrow>
      j * 2 + 1 < length data \<and> unat off + j * 2 + 1 < length (sector_get fl s)"
proof (intro allI impI)
  fix j assume "unat (0 :: u16) \<le> j \<and> j < unat (len div 2)"
  then have "j < unat len div 2"
    by (simp add: unat_half_u16)
  then have "j * 2 + 1 < unat len"
    by arith
  with range size data show "j * 2 + 1 < length data \<and> unat off + j * 2 + 1 < length (sector_get fl s)"
    by simp
qed

lemma write16_not_refused_erased: "\<not> write16_refused mw v 0xFFFF"
  by (simp add: write16_refused_def)

lemma flash_write_erased:
  assumes s: "\<not> 1 < s"
    and range: "unat off + unat len \<le> unat flash_sector_size"
    and al: "off AND 1 = 0" "len AND 1 = 0"
    and size: "length (sector_get fl s) = unat flash_sector_size"
    and data: "length data = unat len"
    and erased: "\<forall>k. unat off \<le> k \<and> k < unat off + unat len \<longrightarrow> sector_get fl s ! k = 0xFF"
  shows "\<exists>fl'. flash_write mw fl s off data len = (Inr True, fl') \<and>
      length (sector_get fl' s) = unat flash_sector_size \<and>
      take (unat len) (drop (unat off) (sector_get fl' s)) = data"
proof -
  let ?b = "sector_get fl s"
  note unfold = flash_write_loop [OF s range_check_passes [OF range] al]
  from data have data': "unat len \<le> length data" by simp
  note inb = flash_write_in_range [OF range size data']
  have ff: "word16_at ?b (unat off + j * 2) = 0xFFFF" if "j < unat len div 2" for j
  proof -
    from that have "j * 2 + 1 < unat len" by arith
    with erased have "?b ! (unat off + j * 2) = 0xFF" "?b ! (unat off + j * 2 + 1) = 0xFF"
      by simp_all
    then show ?thesis
      by (rule word16_at_ff)
  qed
  then have none: "\<forall>j. unat (0 :: u16) \<le> j \<and> j < unat (len div 2) \<longrightarrow>
      \<not> write16_refused mw (word16_at data (j * 2)) (word16_at ?b (unat off + j * 2))"
    by (simp add: unat_half_u16 write16_not_refused_erased)
  from write16_loop_outcome [OF inb, of mw s]
  have "\<exists>b'. write16_loop mw s off data ?b 0 (len div 2) = (None, b')"
    unfolding if_P [OF none] .
  then obtain b' where loop: "write16_loop mw s off data ?b 0 (len div 2) = (None, b')"
    by blast
  note A = write16_loop_done [OF loop]
  from A size have len': "length b' = unat flash_sector_size"
    by simp
  have byte: "b' ! (unat off + k) = data ! k" if k: "k < unat len" for k
  proof -
    define j where "j = k div 2"
    from k al(2) have j: "j < unat len div 2"
      unfolding j_def using even_u16 [of len] by arith
    with A have "word16_at b' (unat off + j * 2) =
        word16_at ?b (unat off + j * 2) AND word16_at data (j * 2)"
      by (simp add: unat_half_u16)
    with ff [OF j] have "word16_at b' (unat off + j * 2) = word16_at data (j * 2)"
      by (simp only: ffff_and)
    then have both: "b' ! (unat off + j * 2) = data ! (j * 2) \<and>
        b' ! (unat off + j * 2 + 1) = data ! (j * 2 + 1)"
      by (rule word16_at_bytes)
    have "k = j * 2 \<or> k = j * 2 + 1"
      unfolding j_def by arith
    with both show ?thesis
      by (auto simp: add.assoc)
  qed
  have "take (unat len) (drop (unat off) b') = data"
  proof (rule nth_equalityI)
    from range len' data show "length (take (unat len) (drop (unat off) b')) = length data"
      by simp
  next
    fix k assume "k < length (take (unat len) (drop (unat off) b'))"
    then have k: "k < unat len" by simp
    with range len' have "take (unat len) (drop (unat off) b') ! k = b' ! (unat off + k)"
      by simp
    with byte [OF k] show "take (unat len) (drop (unat off) b') ! k = data ! k"
      by simp
  qed
  with loop len' show ?thesis
    by (simp add: unfold)
qed

lemma range_check_exact:
  fixes off :: u32 and len :: u16
  assumes "unat off + unat len < 2 ^ 32"
  shows "flash_sector_size < off + ucast len \<longleftrightarrow> unat flash_sector_size < unat off + unat len"
proof -
  have uc: "unat (ucast len :: u32) = unat len"
    by (rule unat_ucast_u16_u32)
  from assms have "unat off + unat (ucast len :: u32) < 2 ^ LENGTH(32)"
    unfolding uc by simp
  then have "unat (off + ucast len) = unat off + unat (ucast len :: u32)"
    by (rule unat_add_lem [THEN iffD1])
  with uc show ?thesis
    by (simp add: word_less_nat_alt)
qed

lemma write16_refused_ffff: "write16_refused mw 0xFFFF v2 \<longleftrightarrow> v2 = 0"
  by (simp add: write16_refused_def)

lemma memcpy_Some:
  assumes "k + n \<le> length dst" "n \<le> length src"
  shows "\<exists>dst'. memcpy dst k src 0 n = Some dst' \<and> length dst' = length dst \<and>
     (\<forall>m. m < n \<longrightarrow> dst' ! (k + m) = src ! m) \<and>
     (\<forall>m. m < length dst \<and> (m < k \<or> k + n \<le> m) \<longrightarrow> dst' ! m = dst ! m)"
proof -
  let ?d = "take k dst @ take n src @ drop (k + n) dst"
  from assms have eq: "memcpy dst k src 0 n = Some ?d"
    by (simp add: memcpy_def)
  from assms have len: "length ?d = length dst"
    by simp
  have inside: "?d ! (k + m) = src ! m" if "m < n" for m
    using that assms by (simp add: nth_append)
  have outside: "?d ! m = dst ! m" if "m < length dst \<and> (m < k \<or> k + n \<le> m)" for m
  proof (cases "m < k")
    case True
    with assms show ?thesis by (simp add: nth_append)
  next
    case False
    with that have m: "k + n \<le> m" "m < length dst" by simp_all
    from assms have l1: "length (take k dst) = k" and l2: "length (take n src) = n"
      by simp_all
    from m have n1: "\<not> m < k" and n2: "\<not> m - k < n" and idx: "k + n + (m - k - n) = m"
      by arith+
    have "?d ! m = (take n src @ drop (k + n) dst) ! (m - k)"
      by (simp only: nth_append l1 n1 if_False)
    also have "\<dots> = drop (k + n) dst ! (m - k - n)"
      by (simp only: nth_append l2 n2 if_False)
    also from m have "\<dots> = dst ! (k + n + (m - k - n))"
      by (intro nth_drop) simp
    finally show ?thesis
      by (simp only: idx)
  qed
  from eq len inside outside show ?thesis
    by blast
qed

lemma keeps_imageD:
  "keeps_image sw \<Longrightarrow> sw st buffer fl gate offset len = (r, st', buffer', fl') \<Longrightarrow> buffer' = buffer"
  unfolding keeps_image_def by (metis fst_conv snd_conv)

lemma partial_write_example:
  "flash_write False (0xFF # 0xFF # 0x34 # 0x12 # replicate 32764 0xFF, replicate 32768 0xFF) 0 0
      [0x00, 0x00, 0x78, 0x56] 4 =
   (Inl (Panic (Invalid_write16 0 1 0 0)),
    (0x00 # 0x00 # 0x34 # 0x12 # replicate 32764 0xFF, replicate 32768 0xFF))"
  by (simp add: flash_write_def flash_sector_size_def sector_get_def sector_set_def
      write16_loop.simps le16toh_ptr_def word16_at_def put_le16_ptr_def word_cat_eq)

section \<open>The claims\<close>

subsection \<open>C2: a write that would set a cleared bit\<close>

text \<open>
  C2 asks that every \<^verbatim>\<open>flash_write\<close> whose data has a 1 bit where the flash holds a 0 bit
  ends in a panic. The test that should catch this is \<^verbatim>\<open>if (v & !v2)\<close>: with the logical
  \<open>!\<close> it fires only when the flash word is 0 and the data word is odd. The second test
  exempts the data word 0xFFFF, and is compiled out under
  \<^verbatim>\<open>AP_FLASHSTORAGE_MULTI_WRITE\<close>. So the code leaves two ways through, evaluated here:
  \<^item> sector 0 holds the word 0x1234 at offset 0 (bit 0 is cleared), and the data word 0xFFFF
    is written over it: the call returns \<^verbatim>\<open>true\<close> and the flash still holds 0x1234, in
    either build;
  \<^item> with \<^verbatim>\<open>AP_FLASHSTORAGE_MULTI_WRITE\<close> defined, sector 0 holds 0x0001 and 0x0002 is written
    over it: the call returns \<^verbatim>\<open>true\<close> and the flash holds 0x0000, which is neither value.
\<close>

theorem flash_write_accepts_set_bits:
  "flash_write False (0x34 # 0x12 # replicate 32766 0xFF, replicate 32768 0xFF) 0 0 [0xFF, 0xFF] 2 =
     (Inr True, (0x34 # 0x12 # replicate 32766 0xFF, replicate 32768 0xFF)) \<and>
   flash_write True (0x01 # 0x00 # replicate 32766 0xFF, replicate 32768 0xFF) 0 0 [0x02, 0x00] 2 =
     (Inr True, (0x00 # 0x00 # replicate 32766 0xFF, replicate 32768 0xFF))"
  by (simp add: flash_write_def flash_sector_size_def sector_get_def sector_set_def
      write16_loop.simps le16toh_ptr_def word16_at_def put_le16_ptr_def word_cat_eq)

theorem flash_write_accepts_set_bits_witness:
  "bit (word16_at [0xFF, 0xFF] 0) 0 \<and>
   \<not> bit (word16_at (0x34 # 0x12 # replicate 32766 0xFF) 0) 0 \<and>
   fst (flash_write False (0x34 # 0x12 # replicate 32766 0xFF, replicate 32768 0xFF) 0 0
      [0xFF, 0xFF] 2) = Inr True"
  using flash_write_accepts_set_bits
  by (simp add: word16_at_def word_cat_eq bit_0)

subsection \<open>C3: a programmed word is not programmed again\<close>

text \<open>
  C3. In a build that does not define \<^verbatim>\<open>AP_FLASHSTORAGE_MULTI_WRITE\<close>, \<^verbatim>\<open>flash_write\<close>
  ends in a panic whenever some 16-bit word \<open>j\<close> of the target range holds a value
  different from the data word written over it and neither of the two is 0xFFFF; and that
  word of the flash is left as it was. The target range lies inside the sector, the sector
  buffer has \<^verbatim>\<open>flash_sector_size\<close> bytes and the data has \<open>length\<close> bytes. (For a sector
  index above 1 or a misaligned request the call panics as well, at an earlier test, with
  the flash untouched.)
\<close>

theorem flash_write_refuses_second_value:
  assumes mw: "\<not> mw"
    and size: "length (sector_get fl s) = unat flash_sector_size"
    and range: "unat off + unat len \<le> unat flash_sector_size"
    and data: "unat len \<le> length data"
    and j: "j < unat len div 2"
    and differs: "word16_at data (j * 2) \<noteq> word16_at (sector_get fl s) (unat off + j * 2)"
    and new: "word16_at data (j * 2) \<noteq> 0xFFFF"
    and old: "word16_at (sector_get fl s) (unat off + j * 2) \<noteq> 0xFFFF"
  shows "\<exists>p fl'. flash_write mw fl s off data len = (Inl (Panic p), fl') \<and>
      word16_at (sector_get fl' s) (unat off + j * 2) =
        word16_at (sector_get fl s) (unat off + j * 2)"
proof (cases "1 < s \<or> off AND 1 \<noteq> 0 \<or> len AND 1 \<noteq> 0")
  case True
  then have "\<exists>p. flash_write mw fl s off data len = (Inl (Panic p), fl)"
    by (auto simp: flash_write_def)
  then show ?thesis
    by blast
next
  case False
  then have s: "\<not> 1 < s" and al: "off AND 1 = 0" "len AND 1 = 0"
    by simp_all
  note unfold = flash_write_loop [OF s range_check_passes [OF range] al]
  from mw differs new old
  have ref: "write16_refused mw (word16_at data (j * 2))
      (word16_at (sector_get fl s) (unat off + j * 2))"
    by (simp add: write16_refused_def)
  with j have some: "\<not> (\<forall>j. unat (0 :: u16) \<le> j \<and> j < unat (len div 2) \<longrightarrow>
      \<not> write16_refused mw (word16_at data (j * 2)) (word16_at (sector_get fl s) (unat off + j * 2)))"
    by (auto simp: unat_half_u16)
  from write16_loop_outcome [OF flash_write_in_range [OF range size data], of mw s]
  have "\<exists>p b'. write16_loop mw s off data (sector_get fl s) 0 (len div 2) = (Some (Panic p), b')"
    unfolding if_not_P [OF some] .
  then obtain p b' where
    loop: "write16_loop mw s off data (sector_get fl s) 0 (len div 2) = (Some (Panic p), b')"
    by blast
  from j have "unat (0 :: u16) \<le> j" and "j < unat (len div 2)"
    by (simp_all add: unat_half_u16)
  from write16_loop_keeps_refused [OF this ref, of s] loop
  have "word16_at b' (unat off + j * 2) = word16_at (sector_get fl s) (unat off + j * 2)"
    by simp
  with loop show ?thesis
    by (simp add: unfold)
qed

theorem flash_write_refuses_second_value_witness:
  "\<exists>p fl'. flash_write False (0x34 # 0x12 # replicate 32766 0xFF, replicate 32768 0xFF) 0 0
      [0x78, 0x56] 2 = (Inl (Panic p), fl') \<and>
    word16_at (sector_get fl' 0) (unat (0 :: u32) + 0 * 2) =
      word16_at (sector_get (0x34 # 0x12 # replicate 32766 0xFF, replicate 32768 0xFF) 0)
        (unat (0 :: u32) + 0 * 2)"
proof (rule flash_write_refuses_second_value [where j = 0])
  show "\<not> False" by simp
  show "length (sector_get (0x34 # 0x12 # replicate 32766 0xFF, replicate 32768 0xFF) 0) =
      unat flash_sector_size"
    by (simp add: sector_get_def unat_flash_sector_size)
  show "unat (0 :: u32) + unat (2 :: u16) \<le> unat flash_sector_size"
    by (simp add: unat_flash_sector_size)
  show "unat (2 :: u16) \<le> length [0x78, 0x56 :: u8]" by simp
  show "0 < unat (2 :: u16) div 2" by simp
  show "word16_at [0x78, 0x56] (0 * 2) \<noteq>
      word16_at (sector_get (0x34 # 0x12 # replicate 32766 0xFF, replicate 32768 0xFF) 0)
        (unat (0 :: u32) + 0 * 2)"
    by (simp add: sector_get_def word16_at_def word_cat_eq)
  show "word16_at [0x78, 0x56] (0 * 2) \<noteq> 0xFFFF"
    by (simp add: word16_at_def word_cat_eq)
  show "word16_at (sector_get (0x34 # 0x12 # replicate 32766 0xFF, replicate 32768 0xFF) 0)
        (unat (0 :: u32) + 0 * 2) \<noteq> 0xFFFF"
    by (simp add: sector_get_def word16_at_def word_cat_eq)
qed

text \<open>
  The build matters: the test is inside \<^verbatim>\<open>#ifndef AP_FLASHSTORAGE_MULTI_WRITE\<close>. With the macro
  defined, sector 0 holds 0x1234 at offset 0 and 0x5678 is written over it: the two words
  differ, neither is 0xFFFF, and the call returns \<^verbatim>\<open>true\<close> and stores 0x1230.
\<close>

theorem multi_write_accepts_second_value:
  "word16_at [0x78, 0x56] 0 = 0x5678 \<and>
   word16_at (0x34 # 0x12 # replicate 32766 0xFF) 0 = 0x1234 \<and>
   flash_write True (0x34 # 0x12 # replicate 32766 0xFF, replicate 32768 0xFF) 0 0 [0x78, 0x56] 2 =
     (Inr True, (0x30 # 0x12 # replicate 32766 0xFF, replicate 32768 0xFF))"
  by (simp add: flash_write_def flash_sector_size_def sector_get_def sector_set_def
      write16_loop.simps le16toh_ptr_def word16_at_def put_le16_ptr_def word_cat_eq)

subsection \<open>C4: a write that returns has only cleared bits\<close>

text \<open>
  C4. Every call of \<^verbatim>\<open>flash_write\<close> that returns has only cleared bits. For each 16-bit
  word \<open>j\<close> of the written range the word stored after the call is the bitwise AND of the
  word stored before and the word \<open>j\<close> of the data, so a bit that is 1 after the call
  was 1 before it. The bytes of the sector outside \<open>[offset, offset + length)\<close> are
  unchanged, the sector keeps its size, and the other sector is unchanged.
\<close>

theorem flash_write_only_clears_bits:
  assumes ret: "flash_write mw fl s off data len = (Inr r, fl')"
  shows "(\<forall>j. j < unat len div 2 \<longrightarrow>
           word16_at (sector_get fl' s) (unat off + j * 2) =
             word16_at (sector_get fl s) (unat off + j * 2) AND word16_at data (j * 2)) \<and>
         (\<forall>j n. j < unat len div 2 \<and> bit (word16_at (sector_get fl' s) (unat off + j * 2)) n \<longrightarrow>
             bit (word16_at (sector_get fl s) (unat off + j * 2)) n) \<and>
         (\<forall>k. k < length (sector_get fl s) \<and> (k < unat off \<or> unat off + unat len \<le> k) \<longrightarrow>
             sector_get fl' s ! k = sector_get fl s ! k) \<and>
         length (sector_get fl' s) = length (sector_get fl s) \<and>
         (\<forall>s'. \<not> 1 < s' \<and> s' \<noteq> s \<longrightarrow> sector_get fl' s' = sector_get fl s')"
proof -
  from flash_write_returns [OF ret] obtain b' where
    s: "\<not> 1 < s" and
    loop: "write16_loop mw s off data (sector_get fl s) 0 (len div 2) = (None, b')" and
    fl': "fl' = sector_set fl s b'"
    by blast
  note A = write16_loop_done [OF loop]
  have words: "word16_at b' (unat off + j * 2) =
      word16_at (sector_get fl s) (unat off + j * 2) AND word16_at data (j * 2)"
    if "j < unat len div 2" for j
    using A that by (simp add: unat_half_u16)
  have bytes: "b' ! k = sector_get fl s ! k" if "k < unat off \<or> unat off + unat len \<le> k" for k
  proof -
    have "unat len div 2 * 2 \<le> unat len" by simp
    with that have "k < unat off + unat (0 :: u16) * 2 \<or> unat off + unat (len div 2) * 2 \<le> k"
      by (auto simp: unat_half_u16)
    with A show ?thesis by blast
  qed
  from A have len: "length b' = length (sector_get fl s)" by simp
  have other: "sector_get fl' s' = sector_get fl s'" if "\<not> 1 < s' \<and> s' \<noteq> s" for s'
    using that s by (simp add: fl' sector_get_set_other)
  have bits: "bit (word16_at (sector_get fl s) (unat off + j * 2)) n"
    if "j < unat len div 2 \<and> bit (word16_at b' (unat off + j * 2)) n" for j n
    using that words [of j] by (simp add: bit_and_iff)
  from words bits bytes len other show ?thesis
    unfolding fl' sector_get_set by blast
qed

theorem flash_write_only_clears_bits_witness:
  "flash_write True (0x34 # 0xFF # replicate 32766 0xFF, replicate 32768 0xFF) 0 0 [0x14, 0xF2] 2 =
     (Inr True, (0x14 # 0xF2 # replicate 32766 0xFF, replicate 32768 0xFF)) \<and>
   word16_at (0x14 # 0xF2 # replicate 32766 0xFF) 0 =
     word16_at (0x34 # 0xFF # replicate 32766 0xFF) 0 AND word16_at [0x14, 0xF2] 0 \<and>
   (0x14 # 0xF2 # replicate 32766 0xFF) ! 2 = (0x34 # 0xFF # replicate 32766 0xFF) ! 2"
proof -
  let ?fl = "(0x34 # 0xFF # replicate 32766 0xFF, replicate 32768 0xFF) :: flash"
  let ?fl' = "(0x14 # 0xF2 # replicate 32766 0xFF, replicate 32768 0xFF) :: flash"
  have run: "flash_write True ?fl 0 0 [0x14, 0xF2] 2 = (Inr True, ?fl')"
    by (simp add: flash_write_def flash_sector_size_def sector_get_def sector_set_def
        write16_loop.simps le16toh_ptr_def word16_at_def put_le16_ptr_def word_cat_eq)
  note C = flash_write_only_clears_bits [OF run]
  from C have words: "\<forall>j. j < unat (2 :: u16) div 2 \<longrightarrow>
      word16_at (sector_get ?fl' 0) (unat (0 :: u32) + j * 2) =
        word16_at (sector_get ?fl 0) (unat (0 :: u32) + j * 2) AND word16_at [0x14, 0xF2] (j * 2)"
    by (rule conjunct1)
  from C have bytes: "\<forall>k. k < length (sector_get ?fl 0) \<and>
      (k < unat (0 :: u32) \<or> unat (0 :: u32) + unat (2 :: u16) \<le> k) \<longrightarrow>
      sector_get ?fl' 0 ! k = sector_get ?fl 0 ! k"
    by (rule conjunct2 [THEN conjunct2, THEN conjunct1])
  have "word16_at (sector_get ?fl' 0) (unat (0 :: u32) + 0 * 2) =
        word16_at (sector_get ?fl 0) (unat (0 :: u32) + 0 * 2) AND word16_at [0x14, 0xF2] (0 * 2)"
    by (rule words [rule_format]) simp
  moreover have "sector_get ?fl' 0 ! 2 = sector_get ?fl 0 ! 2"
    by (rule bytes [rule_format]) (simp add: sector_get_def)
  ultimately show ?thesis
    using run by (simp add: sector_get_def)
qed

subsection \<open>C5: the guards of flash\_write and flash\_read\<close>

text \<open>
  C5 asks for a panic whenever \<open>offset + length\<close> exceeds \<^verbatim>\<open>flash_sector_size\<close>. The
  guard \<^verbatim>\<open>offset + length > flash_sector_size\<close> adds in \<^verbatim>\<open>uint32_t\<close>, so the sum wraps:
  for \<open>offset = 0xFFFFFFFF, length = 1\<close> (and \<open>offset = 0xFFFFFFFE, length = 2\<close>, which
  is also aligned) the sum is 0, no guard fires, and the call goes on to access the sector
  buffer 4 GiB past its start. Neither call ends in a panic.
\<close>

theorem range_check_wraps:
  "flash_read (replicate 32768 0xFF, replicate 32768 0xFF) 0 0xFFFFFFFF [0] 1 = (Inl OutOfBounds, [0]) \<and>
   flash_write False (replicate 32768 0xFF, replicate 32768 0xFF) 0 0xFFFFFFFE [0, 0] 2 =
     (Inl OutOfBounds, (replicate 32768 0xFF, replicate 32768 0xFF))"
  by (simp add: flash_read_def flash_write_def flash_sector_size_def sector_get_def sector_set_def
      memcpy_def write16_loop.simps le16toh_ptr_def)

theorem range_check_wraps_witness:
  "unat flash_sector_size < unat (0xFFFFFFFF :: u32) + unat (1 :: u16) \<and>
   (\<forall>p. fst (flash_read (replicate 32768 0xFF, replicate 32768 0xFF) 0 0xFFFFFFFF [0] 1) \<noteq>
      Inl (Panic p)) \<and>
   unat flash_sector_size < unat (0xFFFFFFFE :: u32) + unat (2 :: u16) \<and>
   (\<forall>p. fst (flash_write False (replicate 32768 0xFF, replicate 32768 0xFF) 0 0xFFFFFFFE [0, 0] 2) \<noteq>
      Inl (Panic p))"
  using range_check_wraps
  by (simp add: unat_flash_sector_size)

text \<open>
  What the guards do establish, in the arithmetic of the code: a sector index above 1, a
  32-bit sum above \<^verbatim>\<open>flash_sector_size\<close>, and (for \<^verbatim>\<open>flash_write\<close>) an odd offset or
  length each end the call in the panic of that guard, with the flash and the caller's buffer
  untouched. Whenever the true sum is below \<open>2^32\<close> the 32-bit sum is the true sum
  (\<open>range_check_exact\<close>).
\<close>

theorem flash_guards_panic:
  "(1 < s \<longrightarrow> flash_write mw fl s off data len = (Inl (Panic (Write_sector s)), fl) \<and>
       flash_read fl s off buf len = (Inl (Panic (Read_sector s)), buf)) \<and>
   (\<not> 1 < s \<and> flash_sector_size < off + ucast len \<longrightarrow>
       flash_write mw fl s off data len = (Inl (Panic (Write_range s off len)), fl) \<and>
       flash_read fl s off buf len = (Inl (Panic (Read_range s off len)), buf)) \<and>
   (\<not> 1 < s \<and> \<not> flash_sector_size < off + ucast len \<and> (off AND 1 \<noteq> 0 \<or> len AND 1 \<noteq> 0) \<longrightarrow>
       flash_write mw fl s off data len = (Inl (Panic (Invalid_write s off len)), fl))"
  by (simp add: flash_write_def flash_read_def)

theorem flash_guards_panic_witness:
  "flash_write False (replicate 32768 0xFF, replicate 32768 0xFF) 2 0 [0, 0] 2 =
     (Inl (Panic (Write_sector 2)), (replicate 32768 0xFF, replicate 32768 0xFF)) \<and>
   flash_read (replicate 32768 0xFF, replicate 32768 0xFF) 2 0 [0, 0] 2 =
     (Inl (Panic (Read_sector 2)), [0, 0]) \<and>
   flash_write False (replicate 32768 0xFF, replicate 32768 0xFF) 1 32767 [0, 0] 2 =
     (Inl (Panic (Write_range 1 32767 2)), (replicate 32768 0xFF, replicate 32768 0xFF)) \<and>
   flash_read (replicate 32768 0xFF, replicate 32768 0xFF) 1 32767 [0, 0] 2 =
     (Inl (Panic (Read_range 1 32767 2)), [0, 0]) \<and>
   flash_write False (replicate 32768 0xFF, replicate 32768 0xFF) 0 3 [0, 0] 2 =
     (Inl (Panic (Invalid_write 0 3 2)), (replicate 32768 0xFF, replicate 32768 0xFF))"
  using
    flash_guards_panic [of 2 False "(replicate 32768 0xFF, replicate 32768 0xFF)" 0 "[0, 0]" 2 "[0, 0]"]
    flash_guards_panic [of 1 False "(replicate 32768 0xFF, replicate 32768 0xFF)" 32767 "[0, 0]" 2 "[0, 0]"]
    flash_guards_panic [of 0 False "(replicate 32768 0xFF, replicate 32768 0xFF)" 3 "[0, 0]" 2 "[0, 0]"]
  by (simp add: flash_sector_size_def)

subsection \<open>C6: flash\_erase\<close>

text \<open>
  C6. For a sector index 0 or 1 whose buffer has \<^verbatim>\<open>flash_sector_size\<close> bytes,
  \<^verbatim>\<open>flash_erase\<close> returns \<^verbatim>\<open>true\<close> and leaves that sector as \<^verbatim>\<open>flash_sector_size\<close>
  bytes 0xFF (the other sector as it was); for a sector index above 1 it ends in a panic and
  the flash is untouched.
\<close>

theorem flash_erase_resets_sector:
  "(\<not> 1 < s \<and> length (sector_get fl s) = unat flash_sector_size \<longrightarrow>
      flash_erase fl s = (Inr True, sector_set fl s (replicate (unat flash_sector_size) 0xFF))) \<and>
   (1 < s \<longrightarrow> flash_erase fl s = (Inl (Panic (Erase_sector s)), fl))"
  by (simp add: flash_erase_def memset_def)

theorem flash_erase_resets_sector_witness:
  "flash_erase (0x34 # 0x12 # replicate 32766 0xFF, replicate 32768 0x00) 0 =
     (Inr True, (replicate 32768 0xFF, replicate 32768 0x00)) \<and>
   flash_erase (0x34 # 0x12 # replicate 32766 0xFF, replicate 32768 0x00) 1 =
     (Inr True, (0x34 # 0x12 # replicate 32766 0xFF, replicate 32768 0xFF)) \<and>
   flash_erase (0x34 # 0x12 # replicate 32766 0xFF, replicate 32768 0x00) 2 =
     (Inl (Panic (Erase_sector 2)), (0x34 # 0x12 # replicate 32766 0xFF, replicate 32768 0x00))"
  using flash_erase_resets_sector [of 0 "(0x34 # 0x12 # replicate 32766 0xFF, replicate 32768 0x00)"]
    flash_erase_resets_sector [of 1 "(0x34 # 0x12 # replicate 32766 0xFF, replicate 32768 0x00)"]
    flash_erase_resets_sector [of 2 "(0x34 # 0x12 # replicate 32766 0xFF, replicate 32768 0x00)"]
  by (simp add: sector_get_def sector_set_def unat_flash_sector_size)

subsection \<open>C7: erase, write, read\<close>

text \<open>
  C7. For a sector index 0 or 1, an even offset and an even length with
  \<open>offset + length \<le> flash_sector_size\<close>, and data of \<open>length\<close> bytes:
  \<^verbatim>\<open>flash_erase\<close>, then \<^verbatim>\<open>flash_write\<close> of the data, then \<^verbatim>\<open>flash_read\<close> of the same
  range all return \<^verbatim>\<open>true\<close>, and the bytes read are exactly the data. This holds in
  either build (\<open>mw\<close> is arbitrary).
\<close>

theorem erase_write_read_roundtrip:
  assumes s: "\<not> 1 < s"
    and size: "length (sector_get fl s) = unat flash_sector_size"
    and range: "unat off + unat len \<le> unat flash_sector_size"
    and al: "off AND 1 = 0" "len AND 1 = 0"
    and data: "length data = unat len"
    and buf: "unat len \<le> length buf"
  shows "\<exists>fl1 fl2 buf'.
      flash_erase fl s = (Inr True, fl1) \<and>
      flash_write mw fl1 s off data len = (Inr True, fl2) \<and>
      flash_read fl2 s off buf len = (Inr True, buf') \<and>
      take (unat len) buf' = data"
proof -
  define fl1 where "fl1 = sector_set fl s (replicate (unat flash_sector_size) 0xFF)"
  from s size have erase: "flash_erase fl s = (Inr True, fl1)"
    by (simp add: flash_erase_def memset_def fl1_def)
  have size1: "length (sector_get fl1 s) = unat flash_sector_size"
    by (simp add: fl1_def)
  from range have erased: "\<forall>k. unat off \<le> k \<and> k < unat off + unat len \<longrightarrow> sector_get fl1 s ! k = 0xFF"
    by (simp add: fl1_def)
  from flash_write_erased [OF s range al size1 data erased, of mw] obtain fl2 where
    wr: "flash_write mw fl1 s off data len = (Inr True, fl2)" and
    size2: "length (sector_get fl2 s) = unat flash_sector_size" and
    stored: "take (unat len) (drop (unat off) (sector_get fl2 s)) = data"
    by blast
  define buf' where "buf' = take (unat len) (drop (unat off) (sector_get fl2 s)) @ drop (unat len) buf"
  from s range size2 buf have rd: "flash_read fl2 s off buf len = (Inr True, buf')"
    using range_check_passes [OF range]
    by (simp add: flash_read_def memcpy_def buf'_def)
  from stored data have "take (unat len) buf' = data"
    by (simp add: buf'_def)
  with erase wr rd show ?thesis
    by blast
qed

theorem erase_write_read_roundtrip_witness:
  "\<exists>fl1 fl2 buf'.
      flash_erase (0x34 # 0x12 # replicate 32766 0xFF, replicate 32768 0x00) 1 = (Inr True, fl1) \<and>
      flash_write False fl1 1 4 [1, 2, 3, 4] 4 = (Inr True, fl2) \<and>
      flash_read fl2 1 4 [0, 0, 0, 0, 0] 4 = (Inr True, buf') \<and>
      take (unat (4 :: u16)) buf' = [1, 2, 3, 4]"
proof (rule erase_write_read_roundtrip)
  show "\<not> 1 < (1 :: u8)" by simp
  show "length (sector_get (0x34 # 0x12 # replicate 32766 0xFF, replicate 32768 0x00) 1) =
      unat flash_sector_size"
    by (simp add: sector_get_def unat_flash_sector_size)
  show "unat (4 :: u32) + unat (4 :: u16) \<le> unat flash_sector_size"
    by (simp add: unat_flash_sector_size)
  show "(4 :: u32) AND 1 = 0" by simp
  show "(4 :: u16) AND 1 = 0" by simp
  show "length [1, 2, 3, 4 :: u8] = unat (4 :: u16)" by simp
  show "unat (4 :: u16) \<le> length [0, 0, 0, 0, 0 :: u8]" by simp
qed

subsection \<open>C8: the boolean result\<close>

text \<open>
  C8. Whenever \<^verbatim>\<open>flash_write\<close>, \<^verbatim>\<open>flash_read\<close> or \<^verbatim>\<open>flash_erase\<close> returns a value,
  the value is \<^verbatim>\<open>true\<close>: no path of the three returns \<^verbatim>\<open>false\<close>.
\<close>

theorem flash_primitives_never_return_false:
  "(fst (flash_write mw fl s off data len) = Inr r \<longrightarrow> r = True) \<and>
   (fst (flash_read fl s off buf len) = Inr r \<longrightarrow> r = True) \<and>
   (fst (flash_erase fl s) = Inr r \<longrightarrow> r = True)"
proof (intro conjI impI)
  assume "fst (flash_write mw fl s off data len) = Inr r"
  then have "flash_write mw fl s off data len = (Inr r, snd (flash_write mw fl s off data len))"
    by (metis prod.collapse)
  then show "r = True"
    by (rule flash_write_returns [THEN conjunct1])
next
  assume "fst (flash_read fl s off buf len) = Inr r"
  then show "r = True"
    by (auto simp: flash_read_def split: if_splits option.splits)
next
  assume "fst (flash_erase fl s) = Inr r"
  then show "r = True"
    by (auto simp: flash_erase_def split: if_splits option.splits)
qed

theorem flash_primitives_never_return_false_witness:
  "fst (flash_write False (0x34 # 0x12 # replicate 32766 0xFF, replicate 32768 0xFF) 0 0 [0x34, 0x12] 2) =
     Inr True \<and>
   fst (flash_read (0x34 # 0x12 # replicate 32766 0xFF, replicate 32768 0xFF) 0 0 [0, 0] 2) = Inr True \<and>
   fst (flash_erase (0x34 # 0x12 # replicate 32766 0xFF, replicate 32768 0xFF) 0) = Inr True"
proof -
  let ?fl = "(0x34 # 0x12 # replicate 32766 0xFF, replicate 32768 0xFF) :: flash"
  have "\<exists>r. fst (flash_write False ?fl 0 0 [0x34, 0x12] 2) = Inr r"
    by (auto simp: flash_write_def flash_sector_size_def sector_get_def sector_set_def
        write16_loop.simps le16toh_ptr_def word16_at_def put_le16_ptr_def word_cat_eq)
  moreover have "\<exists>r. fst (flash_read ?fl 0 0 [0, 0] 2) = Inr r"
    by (auto simp: flash_read_def flash_sector_size_def sector_get_def memcpy_def)
  moreover have "\<exists>r. fst (flash_erase ?fl 0) = Inr r"
    by (auto simp: flash_erase_def flash_sector_size_def sector_get_def memset_def)
  ultimately obtain r1 r2 r3 where
    r: "fst (flash_write False ?fl 0 0 [0x34, 0x12] 2) = Inr r1"
      "fst (flash_read ?fl 0 0 [0, 0] 2) = Inr r2"
      "fst (flash_erase ?fl 0) = Inr r3"
    by blast
  from r(1) flash_primitives_never_return_false [where mw = False and fl = ?fl and s = 0
      and off = 0 and data = "[0x34, 0x12]" and len = 2 and r = r1]
  have "r1 = True" by blast
  moreover from r(2) flash_primitives_never_return_false [where fl = ?fl and s = 0
      and off = 0 and buf = "[0, 0]" and len = 2 and r = r2]
  have "r2 = True" by blast
  moreover from r(3) flash_primitives_never_return_false [where fl = ?fl and s = 0 and r = r3]
  have "r3 = True" by blast
  ultimately show ?thesis
    using r by simp
qed

subsection \<open>C9: a panic inside the loop keeps the words already stored\<close>

text \<open>
  C9. When \<^verbatim>\<open>flash_write\<close> ends in the panic of its per-word tests, the message names
  \<open>offset + i\<close> for the index \<open>i\<close> of the word that was refused. At that moment every
  word \<open>j < i\<close> of the range holds the AND of its old value and the data word: the stores
  of the earlier iterations stand, nothing is rolled back. The rest of the sector is as it was.
\<close>

theorem flash_write_not_atomic:
  assumes abort: "flash_write mw fl s off data len = (Inl (Panic (Invalid_write16 s' a x y)), fl')"
  shows "\<exists>i. i < len div 2 \<and> a = off + ucast i \<and> s' = s \<and>
      write16_refused mw (word16_at data (unat i * 2))
        (word16_at (sector_get fl s) (unat off + unat i * 2)) \<and>
      (\<forall>j. j < unat i \<longrightarrow>
         word16_at (sector_get fl' s) (unat off + j * 2) =
           word16_at (sector_get fl s) (unat off + j * 2) AND word16_at data (j * 2)) \<and>
      (\<forall>m. m < length (sector_get fl s) \<and> (m < unat off \<or> unat off + unat i * 2 \<le> m) \<longrightarrow>
         sector_get fl' s ! m = sector_get fl s ! m)"
proof -
  from abort obtain b' where
    loop: "write16_loop mw s off data (sector_get fl s) 0 (len div 2) =
      (Some (Panic (Invalid_write16 s' a x y)), b')" and
    fl': "fl' = sector_set fl s b'"
    by (auto simp: flash_write_def split: if_splits option.splits prod.splits)
  from write16_loop_panic [OF loop] obtain k x' y' where
    k: "k < len div 2" and
    p: "Invalid_write16 s' a x y = Invalid_write16 s (off + ucast k) x' y'" and
    ref: "write16_refused mw (word16_at data (unat k * 2))
        (word16_at (sector_get fl s) (unat off + unat k * 2))" and
    words: "\<forall>j. unat (0 :: u16) \<le> j \<and> j < unat k \<longrightarrow>
          word16_at b' (unat off + j * 2) =
            word16_at (sector_get fl s) (unat off + j * 2) AND word16_at data (j * 2)" and
    bytes: "\<forall>m. m < unat off + unat (0 :: u16) * 2 \<or> unat off + unat k * 2 \<le> m \<longrightarrow>
          b' ! m = sector_get fl s ! m"
    by blast
  from bytes have outside: "\<forall>m. m < length (sector_get fl s) \<and>
      (m < unat off \<or> unat off + unat k * 2 \<le> m) \<longrightarrow> b' ! m = sector_get fl s ! m"
    by auto
  from k p ref words outside show ?thesis
    by (intro exI [of _ k]) (simp add: fl')
qed

theorem flash_write_not_atomic_witness:
  "flash_write False (0xFF # 0xFF # 0x34 # 0x12 # replicate 32764 0xFF, replicate 32768 0xFF) 0 0
      [0x00, 0x00, 0x78, 0x56] 4 =
   (Inl (Panic (Invalid_write16 0 1 0 0)),
    (0x00 # 0x00 # 0x34 # 0x12 # replicate 32764 0xFF, replicate 32768 0xFF)) \<and>
   word16_at (0x00 # 0x00 # 0x34 # 0x12 # replicate 32764 0xFF) 0 =
     word16_at (0xFF # 0xFF # 0x34 # 0x12 # replicate 32764 0xFF) 0 AND
     word16_at [0x00, 0x00, 0x78, 0x56] 0 \<and>
   word16_at (0x00 # 0x00 # 0x34 # 0x12 # replicate 32764 0xFF) 0 \<noteq>
     word16_at (0xFF # 0xFF # 0x34 # 0x12 # replicate 32764 0xFF) 0"
proof -
  let ?fl = "(0xFF # 0xFF # 0x34 # 0x12 # replicate 32764 0xFF, replicate 32768 0xFF) :: flash"
  let ?fl' = "(0x00 # 0x00 # 0x34 # 0x12 # replicate 32764 0xFF, replicate 32768 0xFF) :: flash"
  from flash_write_not_atomic [OF partial_write_example] obtain i :: u16 where
    i: "i < 4 div 2" "(1 :: u32) = 0 + ucast i" and
    words: "\<forall>j. j < unat i \<longrightarrow>
         word16_at (sector_get ?fl' 0) (unat (0 :: u32) + j * 2) =
           word16_at (sector_get ?fl 0) (unat (0 :: u32) + j * 2) AND
           word16_at [0x00, 0x00, 0x78, 0x56] (j * 2)"
    by blast
  from i(1) have "i = 0 \<or> i = 1"
    by unat_arith
  with i(2) have "unat i = 1"
    by auto
  with words have "word16_at (sector_get ?fl' 0) (unat (0 :: u32) + 0 * 2) =
      word16_at (sector_get ?fl 0) (unat (0 :: u32) + 0 * 2) AND
      word16_at [0x00, 0x00, 0x78, 0x56] (0 * 2)"
    by (intro words [rule_format]) simp
  then have "word16_at (0x00 # 0x00 # 0x34 # 0x12 # replicate 32764 0xFF) 0 =
     word16_at (0xFF # 0xFF # 0x34 # 0x12 # replicate 32764 0xFF) 0 AND
     word16_at [0x00, 0x00, 0x78, 0x56] 0"
    by (simp add: sector_get_def)
  moreover have "word16_at (0x00 # 0x00 # 0x34 # 0x12 # replicate 32764 0xFF) 0 \<noteq>
     word16_at (0xFF # 0xFF # 0x34 # 0x12 # replicate 32764 0xFF) 0"
    by (simp add: word16_at_def word_cat_eq)
  ultimately show ?thesis
    using partial_write_example by simp
qed

subsection \<open>C10: FlashTest::write\<close>

text \<open>
  C10. For a call \<^verbatim>\<open>write(offset, data, length)\<close> with \<open>offset + length\<close> inside both
  images and \<open>length\<close> bytes of data, and for any engine whose \<^verbatim>\<open>write\<close> keeps the
  image (the spec's contract for it): the engine's \<^verbatim>\<open>write(offset, length)\<close> is called on
  an image \<open>buffer\<close> that holds the data at \<open>[offset, offset + length)\<close> and is
  \<^verbatim>\<open>mem_buffer\<close> elsewhere, while \<open>mirror\<close> holds the same data on that range and is the
  old \<^verbatim>\<open>mem_mirror\<close> elsewhere. When the engine returns, with \<^verbatim>\<open>true\<close> or with
  \<^verbatim>\<open>false\<close>, \<^verbatim>\<open>mem_buffer\<close> is \<open>buffer\<close> and \<^verbatim>\<open>mem_mirror\<close> is \<open>mirror\<close>: the two
  images agree on the range, both holding the data. The failure message is printed exactly
  when the engine returned \<^verbatim>\<open>false\<close> and \<^verbatim>\<open>erase_ok\<close> is set. A fault inside the engine
  is the fault of the call.
\<close>

theorem FlashTest_write_images_agree:
  assumes inside: "unat offset + unat len \<le> length (mem_buffer t)"
      "unat offset + unat len \<le> length (mem_mirror t)"
    and data: "unat len \<le> length data"
    and engine: "keeps_image storage_write"
  shows "\<exists>buffer mirror.
      length buffer = length (mem_buffer t) \<and> length mirror = length (mem_mirror t) \<and>
      (\<forall>m. m < unat len \<longrightarrow>
         buffer ! (unat offset + m) = data ! m \<and> mirror ! (unat offset + m) = data ! m \<and>
         buffer ! (unat offset + m) = mirror ! (unat offset + m)) \<and>
      (\<forall>m. m < length (mem_buffer t) \<and> (m < unat offset \<or> unat offset + unat len \<le> m) \<longrightarrow>
         buffer ! m = mem_buffer t ! m) \<and>
      (\<forall>m. m < length (mem_mirror t) \<and> (m < unat offset \<or> unat offset + unat len \<le> m) \<longrightarrow>
         mirror ! m = mem_mirror t ! m) \<and>
      (case storage_write (storage t) buffer (flash t) (erase_ok t) offset len of
         (Inl f, st, buffer', fl) \<Rightarrow> FlashTest_write storage_write t offset data len = Inl f
       | (Inr ok, st, buffer', fl) \<Rightarrow>
           FlashTest_write storage_write t offset data len =
             Inr (t\<lparr>mem_buffer := buffer, mem_mirror := mirror, flash := fl, storage := st,
                    console := console t @
                      (if ok then [] else if erase_ok t then [Failed_to_write offset len] else [])\<rparr>))"
proof -
  from memcpy_Some [OF inside(2) data] obtain mirror where
    mirror: "memcpy (mem_mirror t) (unat offset) data 0 (unat len) = Some mirror"
      "length mirror = length (mem_mirror t)"
      "\<forall>m. m < unat len \<longrightarrow> mirror ! (unat offset + m) = data ! m"
      "\<forall>m. m < length (mem_mirror t) \<and> (m < unat offset \<or> unat offset + unat len \<le> m) \<longrightarrow>
         mirror ! m = mem_mirror t ! m"
    by blast
  from memcpy_Some [OF inside(1) data] obtain buffer where
    buffer: "memcpy (mem_buffer t) (unat offset) data 0 (unat len) = Some buffer"
      "length buffer = length (mem_buffer t)"
      "\<forall>m. m < unat len \<longrightarrow> buffer ! (unat offset + m) = data ! m"
      "\<forall>m. m < length (mem_buffer t) \<and> (m < unat offset \<or> unat offset + unat len \<le> m) \<longrightarrow>
         buffer ! m = mem_buffer t ! m"
    by blast
  obtain r st buffer' fl where
    call: "storage_write (storage t) buffer (flash t) (erase_ok t) offset len = (r, st, buffer', fl)"
    by (metis prod.exhaust)
  from keeps_imageD [OF engine call] have kept: "buffer' = buffer" .
  have run: "case storage_write (storage t) buffer (flash t) (erase_ok t) offset len of
         (Inl f, st, buffer', fl) \<Rightarrow> FlashTest_write storage_write t offset data len = Inl f
       | (Inr ok, st, buffer', fl) \<Rightarrow>
           FlashTest_write storage_write t offset data len =
             Inr (t\<lparr>mem_buffer := buffer, mem_mirror := mirror, flash := fl, storage := st,
                    console := console t @
                      (if ok then [] else if erase_ok t then [Failed_to_write offset len] else [])\<rparr>)"
  proof -
    have "FlashTest_write storage_write t offset data len =
        (case r of Inl f \<Rightarrow> Inl f
         | Inr ok \<Rightarrow>
             Inr (t\<lparr>mem_buffer := buffer', mem_mirror := mirror, flash := fl, storage := st,
                    console := console t @
                      (if \<not> ok \<and> erase_ok t then [Failed_to_write offset len] else [])\<rparr>))"
      by (simp only: FlashTest_write_def mirror(1) buffer(1) call option.case prod.case)
    with kept show ?thesis
      by (simp only: call prod.case) (cases r, simp_all)
  qed
  from mirror(3) buffer(3) have agree: "\<forall>m. m < unat len \<longrightarrow>
         buffer ! (unat offset + m) = data ! m \<and> mirror ! (unat offset + m) = data ! m \<and>
         buffer ! (unat offset + m) = mirror ! (unat offset + m)"
    by simp
  from mirror(2,4) buffer(2,4) agree run show ?thesis
    by (intro exI [of _ buffer] exI [of _ mirror]) simp
qed

theorem FlashTest_write_images_agree_witness:
  "\<exists>t'. FlashTest_write (\<lambda>st buffer fl gate offset len. (Inr False, st, buffer, fl))
       \<lparr>mem_buffer = replicate 16384 0, mem_mirror = replicate 16384 0,
        flash = (replicate 32768 0xFF, replicate 32768 0xFF), storage = (),
        erase_ok = True, console = []\<rparr> 37 [42] 1 = Inr t' \<and>
     mem_buffer t' ! 37 = 42 \<and> mem_mirror t' ! 37 = 42 \<and>
     console t' = [Failed_to_write 37 1]"
proof -
  let ?sw = "(\<lambda>st buffer fl gate offset len. (Inr False, st, buffer, fl)) :: unit storage_write"
  let ?t = "\<lparr>mem_buffer = replicate 16384 0, mem_mirror = replicate 16384 0,
        flash = (replicate 32768 0xFF, replicate 32768 0xFF), storage = (),
        erase_ok = True, console = []\<rparr> :: unit FlashTest"
  have "unat (37 :: u16) + unat (1 :: u16) \<le> length (mem_buffer ?t)"
    and "unat (37 :: u16) + unat (1 :: u16) \<le> length (mem_mirror ?t)"
    and "unat (1 :: u16) \<le> length [42 :: u8]"
    and "keeps_image ?sw"
    by (simp_all add: keeps_image_def)
  from FlashTest_write_images_agree [OF this] obtain buffer mirror where
    data: "\<forall>m. m < unat (1 :: u16) \<longrightarrow>
         buffer ! (unat (37 :: u16) + m) = [42] ! m \<and> mirror ! (unat (37 :: u16) + m) = [42] ! m \<and>
         buffer ! (unat (37 :: u16) + m) = mirror ! (unat (37 :: u16) + m)"
    and run: "FlashTest_write ?sw ?t 37 [42] 1 =
      Inr (?t\<lparr>mem_buffer := buffer, mem_mirror := mirror,
               flash := (replicate 32768 0xFF, replicate 32768 0xFF), storage := (),
               console := [Failed_to_write 37 1]\<rparr>)"
    by auto
  have "buffer ! (unat (37 :: u16) + 0) = [42] ! 0 \<and>
      mirror ! (unat (37 :: u16) + 0) = [42] ! 0 \<and>
      buffer ! (unat (37 :: u16) + 0) = mirror ! (unat (37 :: u16) + 0)"
    by (rule data [rule_format]) simp
  then have "buffer ! 37 = 42" "mirror ! 37 = 42"
    by simp_all
  with run show ?thesis
    by simp
qed

section \<open>The outcome of an in-range write\<close>

text \<open>
  For a sector index 0 or 1, an aligned request inside an allocated sector and enough data,
  the two tests of the loop decide the call: \<^verbatim>\<open>flash_write\<close> returns \<^verbatim>\<open>true\<close> when no word
  of the range is refused against the flash word under it, and ends in a panic when some word
  is. No such call leaves a buffer.
\<close>

theorem flash_write_outcome:
  assumes s: "\<not> 1 < s"
    and range: "unat off + unat len \<le> unat flash_sector_size"
    and al: "off AND 1 = 0" "len AND 1 = 0"
    and size: "length (sector_get fl s) = unat flash_sector_size"
    and data: "unat len \<le> length data"
  shows "if \<forall>j. j < unat len div 2 \<longrightarrow>
        \<not> write16_refused mw (word16_at data (j * 2))
            (word16_at (sector_get fl s) (unat off + j * 2))
      then \<exists>fl'. flash_write mw fl s off data len = (Inr True, fl')
      else \<exists>p fl'. flash_write mw fl s off data len = (Inl (Panic p), fl')"
proof -
  note unfold = flash_write_loop [OF s range_check_passes [OF range] al]
  have "(\<forall>j. unat (0 :: u16) \<le> j \<and> j < unat (len div 2) \<longrightarrow>
        \<not> write16_refused mw (word16_at data (j * 2))
            (word16_at (sector_get fl s) (unat off + j * 2))) \<longleftrightarrow>
      (\<forall>j. j < unat len div 2 \<longrightarrow>
        \<not> write16_refused mw (word16_at data (j * 2))
            (word16_at (sector_get fl s) (unat off + j * 2)))"
    by (simp add: unat_half_u16)
  with write16_loop_outcome [OF flash_write_in_range [OF range size data], of mw s]
  have "if \<forall>j. j < unat len div 2 \<longrightarrow>
        \<not> write16_refused mw (word16_at data (j * 2))
            (word16_at (sector_get fl s) (unat off + j * 2))
      then \<exists>b'. write16_loop mw s off data (sector_get fl s) 0 (len div 2) = (None, b')
      else \<exists>p b'. write16_loop mw s off data (sector_get fl s) 0 (len div 2) =
        (Some (Panic p), b')"
    by simp
  then show ?thesis
    unfolding unfold by (auto split: if_splits)
qed

theorem flash_write_outcome_witness:
  "(\<exists>fl'. flash_write False (0x34 # 0x12 # 0xFF # 0xFF # replicate 32764 0xFF, replicate 32768 0xFF)
      0 2 [0x78, 0x56] 2 = (Inr True, fl')) \<and>
   (\<exists>p fl'. flash_write False (0x34 # 0x12 # 0xFF # 0xFF # replicate 32764 0xFF, replicate 32768 0xFF)
      0 0 [0x78, 0x56] 2 = (Inl (Panic p), fl'))"
proof -
  let ?fl = "(0x34 # 0x12 # 0xFF # 0xFF # replicate 32764 0xFF, replicate 32768 0xFF) :: flash"
  have s: "\<not> 1 < (0 :: u8)" by simp
  have size: "length (sector_get ?fl 0) = unat flash_sector_size"
    by (simp add: sector_get_def unat_flash_sector_size)
  have data: "unat (2 :: u16) \<le> length [0x78, 0x56 :: u8]" by simp
  have r2: "unat (2 :: u32) + unat (2 :: u16) \<le> unat flash_sector_size"
    and r0: "unat (0 :: u32) + unat (2 :: u16) \<le> unat flash_sector_size"
    by (simp_all add: unat_flash_sector_size)
  have a2: "(2 :: u32) AND 1 = 0" and a0: "(0 :: u32) AND 1 = 0" and al: "(2 :: u16) AND 1 = 0"
    by simp_all
  have ok: "\<forall>j. j < unat (2 :: u16) div 2 \<longrightarrow>
        \<not> write16_refused False (word16_at [0x78, 0x56] (j * 2))
            (word16_at (sector_get ?fl 0) (unat (2 :: u32) + j * 2))"
    by (simp add: write16_refused_def word16_at_def sector_get_def word_cat_eq)
  have bad: "\<not> (\<forall>j. j < unat (2 :: u16) div 2 \<longrightarrow>
        \<not> write16_refused False (word16_at [0x78, 0x56] (j * 2))
            (word16_at (sector_get ?fl 0) (unat (0 :: u32) + j * 2)))"
    by (simp add: write16_refused_def word16_at_def sector_get_def word_cat_eq)
  from flash_write_outcome [OF s r2 a2 al size data, of False]
  have "\<exists>fl'. flash_write False ?fl 0 2 [0x78, 0x56] 2 = (Inr True, fl')"
    unfolding if_P [OF ok] .
  moreover from flash_write_outcome [OF s r0 a0 al size data, of False]
  have "\<exists>p fl'. flash_write False ?fl 0 0 [0x78, 0x56] 2 = (Inl (Panic p), fl')"
    unfolding if_not_P [OF bad] .
  ultimately show ?thesis by blast
qed

end
